theory Spec2Isabelle
  imports Main "HOL-Library.Word"
begin

unbundle bit_operations_syntax

section \<open>Raw HID over libusb (hid\_LINUX.c)\<close>

text \<open>
  A shallow embedding of \<^verbatim>\<open>src/extras/rawhid/hid_LINUX.c\<close>: the report
  descriptor item decoder, the list of opened devices, and the functions
  \<^verbatim>\<open>rawhid_open\<close>, \<^verbatim>\<open>rawhid_recv\<close> and \<^verbatim>\<open>rawhid_close\<close>.
  Pointers into the descriptor buffer are offsets (\<open>nat\<close>) from its start, bytes are
  \<open>8 word\<close>, \<^verbatim>\<open>uint32_t\<close> is \<open>32 word\<close> and \<^verbatim>\<open>int\<close> is \<open>int\<close> (no
  quantity of the program comes near the limits of a 32-bit \<^verbatim>\<open>int\<close>).
\<close>

type_synonym u8 = "8 word"
type_synonym u16 = "16 word"
type_synonym u32 = "32 word"

subsection \<open>The descriptor item decoder\<close>

text \<open>
  \<^verbatim>\<open>const int table[4] = {0, 1, 2, 4};\<close> indexed by \<^verbatim>\<open>p[0] & 0x03\<close>.
\<close>

definition table :: "u8 \<Rightarrow> nat" where
  "table i = (if i = 0 then 0 else if i = 1 then 1 else if i = 2 then 2 else 4)"

text \<open>
  What one call of \<^verbatim>\<open>hid_parse_item(&val, &data, end)\<close> leaves behind: the
  returned \<^verbatim>\<open>int\<close>, the contents of \<^verbatim>\<open>*val\<close> and \<^verbatim>\<open>*data\<close> after the call, and
  the offsets of the bytes the call has read, in the order of the reads.
\<close>

record item =
  ret :: int
  val :: u32
  data :: nat
  reads :: "nat list"

text \<open>
  The function itself. \<open>mem\<close> is the memory the cursor points into, \<open>v\<close> is the old
  content of \<^verbatim>\<open>*val\<close>, \<open>p\<close> is \<^verbatim>\<open>*data\<close> and \<open>e\<close> is \<^verbatim>\<open>end\<close>. A failing call
  writes neither \<^verbatim>\<open>*val\<close> nor \<^verbatim>\<open>*data\<close>. The operands of the shifts are promoted
  to \<^verbatim>\<open>int\<close> in C and the result is stored in a \<^verbatim>\<open>uint32_t\<close>; the model computes
  the same bits in \<open>32 word\<close>.
\<close>

definition hid_parse_item :: "(nat \<Rightarrow> u8) \<Rightarrow> u32 \<Rightarrow> nat \<Rightarrow> nat \<Rightarrow> item" where
  "hid_parse_item mem v p e =
     (if p \<ge> e then \<lparr>ret = -1, val = v, data = p, reads = []\<rparr>
      else if mem p = 0xFE then
        (if p + 5 \<ge> e then \<lparr>ret = -1, val = v, data = p, reads = [p]\<rparr>
         else if p + unat (mem (p + 1)) \<ge> e
           then \<lparr>ret = -1, val = v, data = p, reads = [p, p + 1]\<rparr>
         else
           (let tag = mem (p + 2);
                len = unat (mem (p + 1)) + 5
            in \<lparr>ret = uint tag, val = 0, data = p + (len + 1),
                reads = [p, p + 1, p + 2, p + 1]\<rparr>))
      else
        (let tag = mem p AND 0xFC;
             len = table (mem p AND 0x03)
         in if p + len + 1 \<ge> e then \<lparr>ret = -1, val = v, data = p, reads = [p, p, p]\<rparr>
            else if mem p AND 0x03 = 3 then
              \<lparr>ret = uint tag,
               val = ucast (mem (p + 1)) OR push_bit 8 (ucast (mem (p + 2)))
                     OR push_bit 16 (ucast (mem (p + 3))) OR push_bit 24 (ucast (mem (p + 4))),
               data = p + (len + 1), reads = [p, p, p, p, p + 1, p + 2, p + 3, p + 4]\<rparr>
            else if mem p AND 0x03 = 2 then
              \<lparr>ret = uint tag,
               val = ucast (mem (p + 1)) OR push_bit 8 (ucast (mem (p + 2))),
               data = p + (len + 1), reads = [p, p, p, p, p + 1, p + 2]\<rparr>
            else if mem p AND 0x03 = 1 then
              \<lparr>ret = uint tag, val = ucast (mem (p + 1)),
               data = p + (len + 1), reads = [p, p, p, p, p + 1]\<rparr>
            else
              \<lparr>ret = uint tag, val = 0, data = p + (len + 1), reads = [p, p, p, p]\<rparr>))"

text \<open>A concrete memory for examples: the listed bytes, and zero after them.\<close>

definition mem_of :: "u8 list \<Rightarrow> nat \<Rightarrow> u8" where
  "mem_of bs i = (if i < length bs then bs ! i else 0)"

text \<open>The payload of a short item read as a little-endian number.\<close>

fun le_value :: "(nat \<Rightarrow> u8) \<Rightarrow> nat \<Rightarrow> nat \<Rightarrow> nat" where
  "le_value mem a 0 = 0"
| "le_value mem a (Suc n) = unat (mem a) + 256 * le_value mem (a + 1) n"

subsection \<open>The list of opened devices\<close>

text \<open>
  \<^verbatim>\<open>struct hid_struct\<close>. A \<^verbatim>\<open>libusb_device_handle *\<close> is \<open>None\<close> when it is
  \<^verbatim>\<open>NULL\<close> and \<open>Some h\<close> otherwise. The \<^verbatim>\<open>prev\<close> and \<^verbatim>\<open>next\<close> pointers are the
  order of the list below.
\<close>

record hid_t =
  handle :: "nat option"
  "open" :: int
  iface :: int
  ep_in :: int
  ep_out :: int

text \<open>
  The calls the program makes to libusb on a device handle, each with the arguments
  that matter here and, where the program looks at it, the result.
\<close>

datatype usb_call =
    LibusbOpenFailed
  | LibusbOpen nat
  | KernelDriverActive nat int
  | DetachKernelDriver nat int bool
  | ClaimInterface nat int bool
  | GetReportDescriptor nat int int
  | ReleaseInterface nat int
  | LibusbClose nat
  | InterruptTransfer "nat option" int int int

text \<open>
  The state outside the functions: the nodes reachable from \<^verbatim>\<open>first_hid\<close> in list
  order (the list is empty exactly when \<^verbatim>\<open>first_hid\<close> and \<^verbatim>\<open>last_hid\<close> are
  \<^verbatim>\<open>NULL\<close>), the calls made to libusb so far, and the number of handles libusb has
  handed out: every successful \<^verbatim>\<open>libusb_open\<close> returns a handle not seen before.
\<close>

record world =
  hids :: "hid_t list"
  usb_log :: "usb_call list"
  next_handle :: nat

definition add_hid :: "hid_t \<Rightarrow> world \<Rightarrow> world" where
  "add_hid h w = w\<lparr>hids := hids w @ [h]\<rparr>"

text \<open>
  \<^verbatim>\<open>for (p = first_hid; p && num > 0; p = p->next, num--) ; return p;\<close>
  The result is the position of the node reached, \<open>None\<close> for \<^verbatim>\<open>NULL\<close>.
\<close>

fun get_hid :: "hid_t list \<Rightarrow> int \<Rightarrow> nat option" where
  "get_hid [] num = None"
| "get_hid (h # hs) num =
     (if num > 0 then map_option Suc (get_hid hs (num - 1)) else Some 0)"

text \<open>\<^verbatim>\<open>hid_close\<close>: the node after the call, and the calls made to libusb.\<close>

definition hid_close :: "hid_t \<Rightarrow> hid_t \<times> usb_call list" where
  "hid_close hid =
     (case handle hid of
        None \<Rightarrow> (hid, [])
      | Some h \<Rightarrow> (hid\<lparr>handle := None\<rparr>, [ReleaseInterface h (iface hid), LibusbClose h]))"

text \<open>
  \<^verbatim>\<open>free_all_hid\<close> closes every node in list order, frees the nodes and resets
  \<^verbatim>\<open>first_hid\<close> and \<^verbatim>\<open>last_hid\<close>.
\<close>

definition free_all_hid :: "world \<Rightarrow> world" where
  "free_all_hid w =
     w\<lparr>hids := [], usb_log := usb_log w @ concat (map (\<lambda>p. snd (hid_close p)) (hids w))\<rparr>"

definition rawhid_close :: "int \<Rightarrow> world \<Rightarrow> world" where
  "rawhid_close num w =
     (case get_hid (hids w) num of
        None \<Rightarrow> w
      | Some i \<Rightarrow>
          if open (hids w ! i) = 0 then w
          else w\<lparr>hids := (hids w)[i := fst (hid_close (hids w ! i))],
                 usb_log := usb_log w @ snd (hid_close (hids w ! i))\<rparr>)"

subsection \<open>Receiving a packet\<close>

text \<open>Constants of \<^verbatim>\<open>libusb.h\<close>.\<close>

definition LIBUSB_ENDPOINT_IN :: int where
  "LIBUSB_ENDPOINT_IN = 0x80"

definition LIBUSB_ERROR_TIMEOUT :: int where
  "LIBUSB_ERROR_TIMEOUT = -7"

definition LIBUSB_CLASS_HID :: u8 where
  "LIBUSB_CLASS_HID = 3"

text \<open>
  \<^verbatim>\<open>rawhid_recv\<close>. \<open>xfer\<close> is libusb's answer to
  \<^verbatim>\<open>libusb_interrupt_transfer(handle, endpoint, buf, len, &transferred, timeout)\<close>:
  the returned status and the value stored in \<^verbatim>\<open>transferred\<close>.
\<close>

definition rawhid_recv ::
  "(nat option \<Rightarrow> int \<Rightarrow> int \<Rightarrow> int \<Rightarrow> int \<times> int) \<Rightarrow> int \<Rightarrow> int \<Rightarrow> int \<Rightarrow> world \<Rightarrow> int \<times> world" where
  "rawhid_recv xfer num len timeout w =
     (case get_hid (hids w) num of
        None \<Rightarrow> (-1, w)
      | Some i \<Rightarrow>
          let hid = hids w ! i in
          if open hid = 0 then (-1, w)
          else
            let ep = ep_in hid OR LIBUSB_ENDPOINT_IN;
                (r, transferred) = xfer (handle hid) ep len timeout;
                w' = w\<lparr>usb_log := usb_log w @ [InterruptTransfer (handle hid) ep len timeout]\<rparr>
            in if r = 0 then (transferred, w')
               else if r = LIBUSB_ERROR_TIMEOUT then (0, w')
               else (-1, w'))"

subsection \<open>Reading the log\<close>

text \<open>
  The interfaces held after a sequence of calls, as pairs of handle and interface
  number in the order of the claims: a successful claim adds its pair, a release
  removes it.
\<close>

fun held :: "(nat \<times> int) list \<Rightarrow> usb_call list \<Rightarrow> (nat \<times> int) list" where
  "held cs [] = cs"
| "held cs (ClaimInterface h j True # log) = held (cs @ [(h, j)]) log"
| "held cs (ReleaseInterface h j # log) = held (removeAll (h, j) cs) log"
| "held cs (c # log) = held cs log"

text \<open>The handles open after a sequence of calls, in the order they were opened.\<close>

fun opened :: "nat list \<Rightarrow> usb_call list \<Rightarrow> nat list" where
  "opened hs [] = hs"
| "opened hs (LibusbOpen h # log) = opened (hs @ [h]) log"
| "opened hs (LibusbClose h # log) = opened (removeAll h hs) log"
| "opened hs (c # log) = opened hs log"

text \<open>The handle a call is made on.\<close>

fun call_handle :: "usb_call \<Rightarrow> nat option" where
  "call_handle LibusbOpenFailed = None"
| "call_handle (LibusbOpen h) = Some h"
| "call_handle (KernelDriverActive h j) = Some h"
| "call_handle (DetachKernelDriver h j ok) = Some h"
| "call_handle (ClaimInterface h j ok) = Some h"
| "call_handle (GetReportDescriptor h j n) = Some h"
| "call_handle (ReleaseInterface h j) = Some h"
| "call_handle (LibusbClose h) = Some h"
| "call_handle (InterruptTransfer h ep n t) = h"

text \<open>
  A claim is an exclusive reservation of an interface: while one handle holds an
  interface of a device, \<^verbatim>\<open>libusb_claim_interface\<close> on another handle of that device
  fails for the same interface. \<open>first\<close> is the handle counter at the moment the
  program starts on a device, so the handles opened on that device are the handles
  from \<open>first\<close> on; interface \<open>j\<close> of the device is busy when the log has a claim of
  \<open>j\<close> on one of them that has not been released.
\<close>

definition interface_busy :: "nat \<Rightarrow> int \<Rightarrow> world \<Rightarrow> bool" where
  "interface_busy first j w =
     list_ex (\<lambda>(h, j'). first \<le> h \<and> j' = j) (held [] (usb_log w))"

subsection \<open>Opening devices\<close>

text \<open>
  What libusb answers while one alternate setting is examined: whether
  \<^verbatim>\<open>libusb_open\<close>, \<^verbatim>\<open>libusb_detach_kernel_driver\<close> and
  \<^verbatim>\<open>libusb_claim_interface\<close> succeed, whether \<^verbatim>\<open>libusb_kernel_driver_active\<close>
  is non-zero, the length returned by the control transfer that fetches the report
  descriptor together with the contents of \<^verbatim>\<open>buf\<close> after it, and whether
  \<^verbatim>\<open>malloc\<close> returns a node.
\<close>

record usb_replies =
  open_ok :: bool
  driver_active :: bool
  detach_ok :: bool
  claim_ok :: bool
  report_len :: int
  report_buf :: "nat \<Rightarrow> u8"
  malloc_ok :: bool

text \<open>
  The descriptors of libusb, with the fields the program reads. The counts
  \<^verbatim>\<open>bNumEndpoints\<close>, \<^verbatim>\<open>num_altsetting\<close> and \<^verbatim>\<open>bNumInterfaces\<close> are the lengths of
  the lists. A device whose descriptor or configuration descriptor cannot be read has
  \<open>None\<close> there.
\<close>

record endpoint_descriptor =
  bEndpointAddress :: u8

record interface_descriptor =
  bInterfaceClass :: u8
  bInterfaceSubClass :: u8
  bInterfaceProtocol :: u8
  endpoint :: "endpoint_descriptor list"
  replies :: usb_replies

record libusb_interface =
  altsetting :: "interface_descriptor list"

record config_descriptor =
  interface :: "libusb_interface list"

record device_descriptor =
  idVendor :: u16
  idProduct :: u16

record libusb_device =
  descriptor :: "device_descriptor option"
  config :: "config_descriptor option"

text \<open>
  The variables of \<^verbatim>\<open>rawhid_open\<close> that live across the loops. They are declared
  and initialised once, at the head of the function.
\<close>

record locals =
  count :: int
  parsed_usage_page :: u32
  parsed_usage :: u32

text \<open>The loop over the endpoints of an alternate setting; the pair is \<^verbatim>\<open>(ep_in, ep_out)\<close>.\<close>

fun scan_endpoints :: "endpoint_descriptor list \<Rightarrow> int \<times> int \<Rightarrow> int \<times> int" where
  "scan_endpoints [] io = io"
| "scan_endpoints (ep # eps) (i, out) =
     (if bEndpointAddress ep AND 0x80 \<noteq> 0
      then scan_endpoints eps (if i = 0 then uint (bEndpointAddress ep AND 0x7F) else i, out)
      else scan_endpoints eps (i, if out = 0 then uint (bEndpointAddress ep) else out))"

text \<open>
  The loop over the items of the report descriptor:
  \<^verbatim>\<open>while (p < buf + len) { tag = hid_parse_item(&val, &p, buf + len); ... }\<close>.
  \<open>e\<close> is \<^verbatim>\<open>len\<close>, \<open>p\<close> the cursor, \<open>v\<close> the content of \<^verbatim>\<open>val\<close>, and the pair is
  \<^verbatim>\<open>(parsed_usage_page, parsed_usage)\<close>.
\<close>

function parse_report :: "(nat \<Rightarrow> u8) \<Rightarrow> nat \<Rightarrow> nat \<Rightarrow> u32 \<Rightarrow> u32 \<times> u32 \<Rightarrow> u32 \<times> u32" where
  "parse_report buf e p v (page, usage) =
     (if p < e then
        (let r = hid_parse_item buf v p e in
         if ret r < 0 then (page, usage)
         else
           (let page' = (if ret r = 4 then val r else page);
                usage' = (if ret r = 8 then val r else usage)
            in if page' \<noteq> 0 \<and> usage' \<noteq> 0 then (page', usage')
               else parse_report buf e (data r) (val r) (page', usage')))
      else (page, usage))"
  by pat_completeness auto
termination
proof (relation "measure (\<lambda>(buf, e, p, v, pu). e - p)")
  show "wf (measure (\<lambda>(buf, e, p, v, pu). e - p))" by simp
next
  fix buf :: "nat \<Rightarrow> u8" and e p :: nat and v :: u32 and page usage :: u32
    and r page' usage'
  assume "p < e" and r: "r = hid_parse_item buf v p e" and "\<not> ret r < 0"
  then have "p < data r"
    by (auto simp: hid_parse_item_def Let_def split: if_splits)
  with \<open>p < e\<close>
  show "((buf, e, data r, val r, page', usage'), (buf, e, p, v, page, usage))
          \<in> measure (\<lambda>(buf, e, p, v, pu). e - p)"
    by simp
qed

declare parse_report.simps [simp del]

text \<open>Appending calls to the log.\<close>

definition logged :: "usb_call list \<Rightarrow> world \<Rightarrow> world" where
  "logged cs w = w\<lparr>usb_log := usb_log w @ cs\<rparr>"

text \<open>
  The body of the innermost loop of \<^verbatim>\<open>rawhid_open\<close>, for interface number \<open>j\<close> and
  one of its alternate settings \<open>d\<close>. Every \<^verbatim>\<open>continue\<close> of the source is a branch
  that returns here. \<^verbatim>\<open>val\<close> is declared without a value; it is only read after
  \<^verbatim>\<open>hid_parse_item\<close> has stored one. \<^verbatim>\<open>libusb_claim_interface\<close> succeeds when
  libusb's answer for the candidate allows it and the interface is not busy.
\<close>

definition candidate ::
  "int \<Rightarrow> int \<Rightarrow> nat \<Rightarrow> int \<Rightarrow> interface_descriptor \<Rightarrow> world \<times> locals
     \<Rightarrow> world \<times> locals" where
  "candidate usage_page usage first j d wl =
     (let (w, l) = wl; a = replies d in
      if bInterfaceClass d \<noteq> LIBUSB_CLASS_HID then wl
      else if bInterfaceSubClass d \<noteq> 0 then wl
      else if bInterfaceProtocol d \<noteq> 0 then wl
      else
        let (ep_in', ep_out') = scan_endpoints (endpoint d) (0, 0) in
        if ep_in' = 0 then wl
        else if \<not> open_ok a then (logged [LibusbOpenFailed] w, l)
        else
          let h = next_handle w;
              w1 = logged [LibusbOpen h, KernelDriverActive h j] (w\<lparr>next_handle := h + 1\<rparr>)
          in
          if driver_active a \<and> \<not> detach_ok a
          then (logged [DetachKernelDriver h j False, LibusbClose h] w1, l)
          else
            let w2 = (if driver_active a then logged [DetachKernelDriver h j True] w1 else w1) in
            if \<not> claim_ok a \<or> interface_busy first j w2
            then (logged [ClaimInterface h j False, LibusbClose h] w2, l)
            else
              let len = report_len a;
                  w3 = logged [ClaimInterface h j True, GetReportDescriptor h j len] w2
              in
              if len < 0 then (logged [ReleaseInterface h j, LibusbClose h] w3, l)
              else
                let (page, us) = parse_report (report_buf a) (nat len) 0 0
                                   (parsed_usage_page l, parsed_usage l);
                    l' = l\<lparr>parsed_usage_page := page, parsed_usage := us\<rparr>
                in
                if page = 0 \<or> us = 0
                   \<or> (usage_page > 0 \<and> uint page \<noteq> usage_page)
                   \<or> (usage > 0 \<and> uint us \<noteq> usage)
                then (logged [ReleaseInterface h j, LibusbClose h] w3, l')
                else if \<not> malloc_ok a
                then (logged [ReleaseInterface h j, LibusbClose h] w3, l')
                else
                  (add_hid \<lparr>handle = Some h, open = 1, iface = j,
                            ep_in = ep_in', ep_out = ep_out'\<rparr> w3,
                   l'\<lparr>count := count l' + 1\<rparr>))"

text \<open>\<^verbatim>\<open>for (k = 0; k < iface->num_altsetting; k++)\<close>\<close>

fun altsetting_loop ::
  "int \<Rightarrow> int \<Rightarrow> nat \<Rightarrow> int \<Rightarrow> interface_descriptor list \<Rightarrow> world \<times> locals
     \<Rightarrow> world \<times> locals" where
  "altsetting_loop usage_page usage first j [] wl = wl"
| "altsetting_loop usage_page usage first j (d # ds) wl =
     altsetting_loop usage_page usage first j ds (candidate usage_page usage first j d wl)"

text \<open>\<^verbatim>\<open>for (j = 0; j < conf_desc->bNumInterfaces && count < max; j++)\<close>\<close>

fun interface_loop ::
  "int \<Rightarrow> int \<Rightarrow> int \<Rightarrow> nat \<Rightarrow> int \<Rightarrow> libusb_interface list \<Rightarrow> world \<times> locals
     \<Rightarrow> world \<times> locals" where
  "interface_loop max' usage_page usage first j [] wl = wl"
| "interface_loop max' usage_page usage first j (i # ifs) wl =
     (if count (snd wl) < max'
      then interface_loop max' usage_page usage first (j + 1) ifs
             (altsetting_loop usage_page usage first j (altsetting i) wl)
      else wl)"

text \<open>
  The body of the loop over the devices. The handles opened on the device are those
  from the present value of the handle counter on.
\<close>

definition device_body ::
  "int \<Rightarrow> int \<Rightarrow> int \<Rightarrow> int \<Rightarrow> int \<Rightarrow> libusb_device \<Rightarrow> world \<times> locals \<Rightarrow> world \<times> locals" where
  "device_body max' vid pid usage_page usage dev wl =
     (case descriptor dev of
        None \<Rightarrow> wl
      | Some desc \<Rightarrow>
          if vid > 0 \<and> uint (idVendor desc) \<noteq> vid then wl
          else if pid > 0 \<and> uint (idProduct desc) \<noteq> pid then wl
          else
            (case config dev of
               None \<Rightarrow> wl
             | Some conf_desc \<Rightarrow>
                 interface_loop max' usage_page usage (next_handle (fst wl)) 0
                   (interface conf_desc) wl))"

text \<open>\<^verbatim>\<open>for (i = 0; devs[i] != NULL && count < max; i++)\<close>\<close>

fun device_loop ::
  "int \<Rightarrow> int \<Rightarrow> int \<Rightarrow> int \<Rightarrow> int \<Rightarrow> libusb_device list \<Rightarrow> world \<times> locals \<Rightarrow> world \<times> locals" where
  "device_loop max' vid pid usage_page usage [] wl = wl"
| "device_loop max' vid pid usage_page usage (dev # devs) wl =
     (if count (snd wl) < max'
      then device_loop max' vid pid usage_page usage devs
             (device_body max' vid pid usage_page usage dev wl)
      else wl)"

text \<open>
  \<^verbatim>\<open>rawhid_open\<close>. \<open>devs\<close> is the device list of \<^verbatim>\<open>libusb_get_device_list\<close>,
  \<open>None\<close> when that call fails. The result is the returned count and the state after
  the call.
\<close>

definition rawhid_open ::
  "int \<Rightarrow> int \<Rightarrow> int \<Rightarrow> int \<Rightarrow> int \<Rightarrow> libusb_device list option \<Rightarrow> world \<Rightarrow> int \<times> world" where
  "rawhid_open max' vid pid usage_page usage devs w =
     (let w0 = (if hids w \<noteq> [] then free_all_hid w else w) in
      if max' < 1 then (0, w0)
      else
        (case devs of
           None \<Rightarrow> (0, w0)
         | Some ds \<Rightarrow>
             let (w', l) = device_loop max' vid pid usage_page usage ds
                             (w0, \<lparr>count = 0, parsed_usage_page = 0, parsed_usage = 0\<rparr>)
             in (count l, w')))"


subsection \<open>Examples\<close>

text \<open>The calls that close one node of the list.\<close>

definition close_calls :: "hid_t \<Rightarrow> usb_call list" where
  "close_calls hid = snd (hid_close hid)"

text \<open>Devices for examples: a raw HID interface with one IN and one OUT endpoint.\<close>

definition teensy_report :: "u8 list" where
  "teensy_report = [0x06, 0xAB, 0xFF, 0x0A, 0x00, 0x02, 0xA1, 0x01, 0x75, 0x08, 0xC0]"

definition rawhid_alt :: "int \<Rightarrow> u8 list \<Rightarrow> interface_descriptor" where
  "rawhid_alt len bytes =
     \<lparr>bInterfaceClass = 3, bInterfaceSubClass = 0, bInterfaceProtocol = 0,
      endpoint = [\<lparr>bEndpointAddress = 0x83\<rparr>, \<lparr>bEndpointAddress = 0x04\<rparr>],
      replies = \<lparr>open_ok = True, driver_active = False, detach_ok = True, claim_ok = True,
                 report_len = len, report_buf = mem_of bytes, malloc_ok = True\<rparr>\<rparr>"

definition usb_device :: "libusb_interface list \<Rightarrow> libusb_device" where
  "usb_device ifs =
     \<lparr>descriptor = Some \<lparr>idVendor = 0x16C0, idProduct = 0x0480\<rparr>,
      config = Some \<lparr>interface = ifs\<rparr>\<rparr>"

definition boot :: world where
  "boot = \<lparr>hids = [], usb_log = [], next_handle = 0\<rparr>"


text \<open>A report descriptor with a usage page and no usage.\<close>

definition page_only_report :: "u8 list" where
  "page_only_report = [0x06, 0x00, 0xFF, 0xA1, 0x01, 0x75, 0x08, 0xC0]"

definition one_teensy :: "libusb_device list option" where
  "one_teensy = Some [usb_device [\<lparr>altsetting = [rawhid_alt 11 teensy_report]\<rparr>]]"

text \<open>The state after one device has been opened.\<close>

definition one_open :: world where
  "one_open =
     \<lparr>hids = [\<lparr>handle = Some 0, open = 1, iface = 0, ep_in = 3, ep_out = 4\<rparr>],
      usb_log = [LibusbOpen 0, KernelDriverActive 0 0, ClaimInterface 0 0 True,
                 GetReportDescriptor 0 0 11],
      next_handle = 1\<rparr>"

subsection \<open>The invariant of the loops of \<^verbatim>\<open>rawhid_open\<close>\<close>

text \<open>
  \<open>L\<close> is the log and \<open>n0\<close> the handle counter when the loops start, with an empty
  list of devices. At every point of the loops the calls made since then are on
  handles handed out since then, the list of devices mirrors the interfaces held and
  the handles open according to those calls, every node is marked open and has an IN
  endpoint, and \<^verbatim>\<open>count\<close> is the length of the list.
\<close>

definition pass_inv :: "usb_call list \<Rightarrow> nat \<Rightarrow> world \<times> locals \<Rightarrow> bool" where
  "pass_inv L n0 wl =
     (\<exists>evs. usb_log (fst wl) = L @ evs
        \<and> n0 \<le> next_handle (fst wl)
        \<and> (\<forall>c \<in> set evs. \<forall>h. call_handle c = Some h \<longrightarrow> n0 \<le> h \<and> h < next_handle (fst wl))
        \<and> map (\<lambda>e. (handle e, iface e)) (hids (fst wl)) = map (\<lambda>(h, j). (Some h, j)) (held [] evs)
        \<and> map handle (hids (fst wl)) = map Some (opened [] evs)
        \<and> (\<forall>h \<in> set (opened [] evs). n0 \<le> h \<and> h < next_handle (fst wl))
        \<and> distinct (opened [] evs)
        \<and> (\<forall>e \<in> set (hids (fst wl)). open e = 1 \<and> ep_in e \<noteq> 0)
        \<and> count (snd wl) = int (length (hids (fst wl))))"



section \<open>Properties of the item decoder\<close>

subsection \<open>Bytes and words\<close>

lemma and3_cases: "(b::u8) AND 3 = 0 \<or> b AND 3 = 1 \<or> b AND 3 = 2 \<or> b AND 3 = 3"
proof -
  have "unat (b AND 3) \<le> unat (3::u8)"
    by (rule word_and_le1 [THEN word_le_nat_alt [THEN iffD1]])
  then have "unat (b AND 3) < 4" by simp
  then have "unat (b AND 3) = 0 \<or> unat (b AND 3) = 1 \<or> unat (b AND 3) = 2 \<or> unat (b AND 3) = 3"
    by arith
  then show ?thesis
    by (auto simp: word_unat_eq_iff)
qed

lemma or_push_nat: "a < 2 ^ n \<Longrightarrow> (a::nat) OR push_bit n b = a + 2 ^ n * b"
proof -
  assume a: "a < 2 ^ n"
  then have ta: "take_bit n a = a" by (simp add: take_bit_nat_eq_self)
  have "\<not> bit a m \<or> \<not> bit (push_bit n b) m" for m
  proof (cases "m < n")
    case True then show ?thesis by (simp add: bit_push_bit_iff)
  next
    case False
    have "bit a m = bit (take_bit n a) m" by (simp add: ta)
    with False show ?thesis by (simp add: bit_take_bit_iff)
  qed
  then have "a AND push_bit n b = 0"
    by (simp add: bit_eq_iff bit_and_iff)
  then have "a + push_bit n b = a OR push_bit n b"
    by (rule disjunctive_add_eq_or)
  then have "a OR push_bit n b = a + push_bit n b" by simp
  then show ?thesis by (simp only: push_bit_eq_mult mult.commute)
qed

lemma unat_u8_u32: "unat (ucast (a::u8) :: u32) = unat a"
proof -
  have "unat a < 2 ^ 8" using unsigned_less [of a] by simp
  then have "unat a < 2 ^ 32" by simp
  then show ?thesis by (simp add: unsigned_ucast_eq take_bit_nat_eq_self)
qed

lemma unat_push_u8: "n \<le> 24 \<Longrightarrow> unat (push_bit n (ucast (b::u8) :: u32)) = push_bit n (unat b)"
proof -
  assume n: "n \<le> 24"
  have b: "unat b < 2 ^ 8" using unsigned_less [of b] by simp
  have "push_bit n (unat b) < 2 ^ n * 2 ^ 8" using b by (simp add: push_bit_eq_mult)
  also have "\<dots> = (2::nat) ^ (n + 8)" by (simp add: power_add)
  also have "\<dots> \<le> 2 ^ 32" using n by (intro power_increasing) auto
  finally have "push_bit n (unat b) < 2 ^ 32" .
  then have "take_bit 32 (push_bit n (unat b)) = push_bit n (unat b)"
    by (rule take_bit_nat_eq_self)
  then show ?thesis by (simp add: unsigned_push_bit_eq unat_u8_u32)
qed

lemma or8: "unat ((ucast (a::u8) :: u32) OR push_bit 8 (ucast (b::u8))) = unat a + 256 * unat b"
proof -
  have a: "unat a < 2 ^ 8" using unsigned_less [of a] by simp
  have b: "unat b < 2 ^ 8" using unsigned_less [of b] by simp
  have pb: "unat (push_bit 8 (ucast b :: u32)) = push_bit 8 (unat b)" by (rule unat_push_u8) simp
  have "unat ((ucast a :: u32) OR push_bit 8 (ucast b)) = unat a OR push_bit 8 (unat b)"
    by (simp add: unsigned_or_eq pb unat_u8_u32)
  then show ?thesis using or_push_nat [OF a, of "unat b"] by simp
qed

lemma or32: "unat ((ucast (a::u8) :: u32) OR push_bit 8 (ucast (b::u8)) OR push_bit 16 (ucast (c::u8)) OR push_bit 24 (ucast (d::u8))) 
   = unat a + 256 * (unat b + 256 * (unat c + 256 * unat d))"
proof -
  have a: "unat a < 2 ^ 8" using unsigned_less [of a] by simp
  have b: "unat b < 2 ^ 8" using unsigned_less [of b] by simp
  have c: "unat c < 2 ^ 8" using unsigned_less [of c] by simp
  have d: "unat d < 2 ^ 8" using unsigned_less [of d] by simp
  have pb: "unat (push_bit 8 (ucast b :: u32)) = push_bit 8 (unat b)"
    by (rule unat_push_u8) simp
  have pc: "unat (push_bit 16 (ucast c :: u32)) = push_bit 16 (unat c)"
    by (rule unat_push_u8) simp
  have pd: "unat (push_bit 24 (ucast d :: u32)) = push_bit 24 (unat d)"
    by (rule unat_push_u8) simp
  have ab: "unat a OR push_bit 8 (unat b) = unat a + 2 ^ 8 * unat b"
    by (rule or_push_nat [OF a])
  have ab_lt: "unat a + 2 ^ 8 * unat b < 2 ^ 16" using a b by simp
  have abc: "(unat a + 2 ^ 8 * unat b) OR push_bit 16 (unat c) = (unat a + 2 ^ 8 * unat b) + 2 ^ 16 * unat c"
    by (rule or_push_nat [OF ab_lt])
  have abc_lt: "(unat a + 2 ^ 8 * unat b) + 2 ^ 16 * unat c < 2 ^ 24" using a b c by simp
  have abcd: "((unat a + 2 ^ 8 * unat b) + 2 ^ 16 * unat c) OR push_bit 24 (unat d) 
      = ((unat a + 2 ^ 8 * unat b) + 2 ^ 16 * unat c) + 2 ^ 24 * unat d"
    by (rule or_push_nat [OF abc_lt])
  have "unat ((ucast a :: u32) OR push_bit 8 (ucast b) OR push_bit 16 (ucast c) OR push_bit 24 (ucast d))
     = ((unat a OR push_bit 8 (unat b)) OR push_bit 16 (unat c)) OR push_bit 24 (unat d)"
    by (simp add: unsigned_or_eq pb pc pd unat_u8_u32 or.assoc)
  also have "\<dots> = ((unat a + 2 ^ 8 * unat b) + 2 ^ 16 * unat c) + 2 ^ 24 * unat d"
    by (simp only: ab abc abcd)
  finally show ?thesis by simp
qed

subsection \<open>Decoding one item\<close>

lemma table_cases: "table (b AND 3) = 0 \<and> b AND 3 = 0 \<or> table (b AND 3) = 1 \<and> b AND 3 = 1 
   \<or> table (b AND 3) = 2 \<and> b AND 3 = 2 \<or> table (b AND 3) = 4 \<and> b AND 3 = 3"
  using and3_cases [of b] by (auto simp: table_def)

lemma le_value_numeral:
  "le_value mem a (numeral k) = unat (mem a) + 256 * le_value mem (a + 1) (pred_numeral k)"
  by (simp add: numeral_eq_Suc)

lemma le_value_2: "le_value mem (p + 1) 2 = unat (mem (p + 1)) + 256 * unat (mem (p + 2))"
proof -
  have e: "p + 1 + 1 = p + 2" by simp
  have "le_value mem (p + 1) (Suc (Suc 0))
      = unat (mem (p + 1)) + 256 * (unat (mem (p + 1 + 1)) + 256 * 0)"
    by (simp only: le_value.simps)
  moreover have "(2::nat) = Suc (Suc 0)" by simp
  ultimately show ?thesis by (simp only: e mult_zero_right add_0_right)
qed

lemma le_value_4:
  "le_value mem (p + 1) 4 = unat (mem (p + 1)) + 256 * (unat (mem (p + 2))
     + 256 * (unat (mem (p + 3)) + 256 * unat (mem (p + 4))))"
proof -
  have e: "p + 1 + 1 = p + 2" "p + 2 + 1 = p + 3" "p + 3 + 1 = p + 4" by simp_all
  have "le_value mem (p + 1) (Suc (Suc (Suc (Suc 0))))
      = unat (mem (p + 1)) + 256 * (unat (mem (p + 1 + 1))
          + 256 * (unat (mem (p + 1 + 1 + 1)) + 256 * (unat (mem (p + 1 + 1 + 1 + 1)) + 256 * 0)))"
    by (simp only: le_value.simps)
  moreover have "(4::nat) = Suc (Suc (Suc (Suc 0)))" by simp
  ultimately show ?thesis by (simp only: e mult_zero_right add_0_right)
qed

lemma le_value_1: "le_value mem a 1 = unat (mem a)"
  by simp

text \<open>
  Claim C8. A short item (first byte \<open>b\<close> other than \<open>0xFE\<close>) that passes the
  bounds check \<open>p + table (b AND 3) + 1 < end\<close> decodes to the tag \<open>b AND 0xFC\<close> and
  to the value of its \<open>table (b AND 3)\<close> payload bytes read as a little-endian
  number, and moves the cursor by \<open>1 + table (b AND 3)\<close>.
\<close>

theorem hid_parse_item_short:
  assumes "mem p \<noteq> 0xFE" and "p + table (mem p AND 0x03) + 1 < e"
  shows "ret (hid_parse_item mem v p e) = uint (mem p AND 0xFC)
       \<and> unat (val (hid_parse_item mem v p e)) = le_value mem (p + 1) (table (mem p AND 0x03))
       \<and> data (hid_parse_item mem v p e) = p + (1 + table (mem p AND 0x03))"
proof -
  from assms have pe: "\<not> e \<le> p" "\<not> e \<le> p + table (mem p AND 0x03) + 1" by auto
  consider (z) "mem p AND 3 = 0" | (o) "mem p AND 3 = 1" | (t) "mem p AND 3 = 2" | (f) "mem p AND 3 = 3"
    using and3_cases [of "mem p"] by blast
  then show ?thesis
  proof cases
    case z
    with assms pe show ?thesis by (simp add: hid_parse_item_def Let_def table_def)
  next
    case o
    with assms pe show ?thesis by (simp add: hid_parse_item_def Let_def table_def unat_u8_u32)
  next
    case t
    with assms pe have "hid_parse_item mem v p e =
        \<lparr>ret = uint (mem p AND 0xFC),
         val = ucast (mem (p + 1)) OR push_bit 8 (ucast (mem (p + 2))),
         data = p + (2 + 1), reads = [p, p, p, p, p + 1, p + 2]\<rparr>"
      by (simp add: hid_parse_item_def Let_def table_def)
    moreover have "table (mem p AND 0x03) = 2" using t by (simp add: table_def)
    ultimately show ?thesis using le_value_2 [of mem p] by (simp add: or8)
  next
    case f
    with assms pe have "hid_parse_item mem v p e =
        \<lparr>ret = uint (mem p AND 0xFC),
         val = ucast (mem (p + 1)) OR push_bit 8 (ucast (mem (p + 2)))
               OR push_bit 16 (ucast (mem (p + 3))) OR push_bit 24 (ucast (mem (p + 4))),
         data = p + (4 + 1), reads = [p, p, p, p, p + 1, p + 2, p + 3, p + 4]\<rparr>"
      by (simp add: hid_parse_item_def Let_def table_def)
    moreover have "table (mem p AND 0x03) = 4" using f by (simp add: table_def)
    ultimately show ?thesis using le_value_4 [of mem p] by (simp add: or32)
  qed
qed

theorem hid_parse_item_short_witness:
  "mem_of [0x0A, 0x00, 0x02, 0xC0] 0 \<noteq> 0xFE
   \<and> 0 + table (mem_of [0x0A, 0x00, 0x02, 0xC0] 0 AND 0x03) + 1 < 4
   \<and> ret (hid_parse_item (mem_of [0x0A, 0x00, 0x02, 0xC0]) 0 0 4) = 8
   \<and> unat (val (hid_parse_item (mem_of [0x0A, 0x00, 0x02, 0xC0]) 0 0 4)) = 512
   \<and> data (hid_parse_item (mem_of [0x0A, 0x00, 0x02, 0xC0]) 0 0 4) = 3"
  using hid_parse_item_short [of "mem_of [0x0A, 0x00, 0x02, 0xC0]" 0 4 0]
        le_value_2 [of "mem_of [0x0A, 0x00, 0x02, 0xC0]" 0]
  by (simp add: mem_of_def table_def)

text \<open>
  Claim C3, as amended. A long item (first byte \<open>0xFE\<close>) that passes the bounds
  check decodes to the tag in its third byte and to the value \<open>0\<close>, and moves the
  cursor by \<open>6\<close> plus its second byte: the source sets \<^verbatim>\<open>len = p[1] + 5\<close> and
  advances by \<^verbatim>\<open>len + 1\<close>.
\<close>

theorem hid_parse_item_long:
  assumes "mem p = 0xFE" and "p + 5 < e" and "p + unat (mem (p + 1)) < e"
  shows "ret (hid_parse_item mem v p e) = uint (mem (p + 2))
       \<and> val (hid_parse_item mem v p e) = 0
       \<and> data (hid_parse_item mem v p e) = p + (6 + unat (mem (p + 1)))"
  using assms by (simp add: hid_parse_item_def Let_def)

theorem hid_parse_item_long_witness:
  "mem_of [0xFE, 0x02, 0x10, 0xAA, 0xBB, 0x05, 0x01, 0x09, 0x02] 0 = 0xFE
   \<and> (0::nat) + 5 < 9
   \<and> 0 + unat (mem_of [0xFE, 0x02, 0x10, 0xAA, 0xBB, 0x05, 0x01, 0x09, 0x02] (0 + 1)) < 9
   \<and> ret (hid_parse_item (mem_of [0xFE, 0x02, 0x10, 0xAA, 0xBB, 0x05, 0x01, 0x09, 0x02]) 7 0 9) = 16
   \<and> val (hid_parse_item (mem_of [0xFE, 0x02, 0x10, 0xAA, 0xBB, 0x05, 0x01, 0x09, 0x02]) 7 0 9) = 0
   \<and> data (hid_parse_item (mem_of [0xFE, 0x02, 0x10, 0xAA, 0xBB, 0x05, 0x01, 0x09, 0x02]) 7 0 9) = 8"
  using hid_parse_item_long [of "mem_of [0xFE, 0x02, 0x10, 0xAA, 0xBB, 0x05, 0x01, 0x09, 0x02]" 0 9 7]
  by (simp add: mem_of_def)

text \<open>
  The claim C3 as first stated has the cursor move by \<open>5\<close> plus the second byte.
  For the long item \<open>FE 02 10 AA BB\<close> at offset \<open>0\<close> of a nine-byte descriptor the
  cursor moves to \<open>8\<close>, not to \<open>7\<close>.
\<close>

theorem hid_parse_item_long_advance_counterexample:
  "mem_of [0xFE, 0x02, 0x10, 0xAA, 0xBB, 0x05, 0x01, 0x09, 0x02] 0 = 0xFE
   \<and> (0::nat) + 5 < 9
   \<and> 0 + unat (mem_of [0xFE, 0x02, 0x10, 0xAA, 0xBB, 0x05, 0x01, 0x09, 0x02] (0 + 1)) < 9
   \<and> data (hid_parse_item (mem_of [0xFE, 0x02, 0x10, 0xAA, 0xBB, 0x05, 0x01, 0x09, 0x02]) 0 0 9)
       \<noteq> 0 + (5 + unat (mem_of [0xFE, 0x02, 0x10, 0xAA, 0xBB, 0x05, 0x01, 0x09, 0x02] (0 + 1)))"
  by (simp add: hid_parse_item_def mem_of_def)

lemma hid_parse_item_reads: "a \<in> set (reads (hid_parse_item mem v p e)) \<Longrightarrow> a < e"
  using table_cases [of "mem p"]
  by (auto simp: hid_parse_item_def Let_def split: if_splits)

text \<open>
  Claim C6. When the cursor is at or past \<open>end\<close>, or the bounds check of the item
  fails (short item: \<open>end \<le> p + length + 1\<close>; long item: \<open>end \<le> p + 5\<close> or
  \<open>end \<le> p + byte 1\<close>), the decoder returns \<open>-1\<close>, and every byte it has read lies
  below \<open>end\<close>.
\<close>

theorem hid_parse_item_bounds:
  assumes "e \<le> p
         \<or> (mem p = 0xFE \<and> (e \<le> p + 5 \<or> e \<le> p + unat (mem (p + 1))))
         \<or> (mem p \<noteq> 0xFE \<and> e \<le> p + table (mem p AND 0x03) + 1)"
  shows "ret (hid_parse_item mem v p e) = -1
       \<and> (\<forall>a \<in> set (reads (hid_parse_item mem v p e)). a < e)"
proof -
  have "ret (hid_parse_item mem v p e) = -1"
    using assms by (auto simp: hid_parse_item_def Let_def)
  then show ?thesis by (simp add: hid_parse_item_reads)
qed

theorem hid_parse_item_bounds_witness:
  "((2::nat) \<le> 0
     \<or> (mem_of [0x06, 0xAB] 0 = 0xFE \<and> ((2::nat) \<le> 0 + 5 \<or> 2 \<le> 0 + unat (mem_of [0x06, 0xAB] (0 + 1))))
     \<or> (mem_of [0x06, 0xAB] 0 \<noteq> 0xFE \<and> 2 \<le> 0 + table (mem_of [0x06, 0xAB] 0 AND 0x03) + 1))
   \<and> ret (hid_parse_item (mem_of [0x06, 0xAB]) 0 0 2) = -1
   \<and> reads (hid_parse_item (mem_of [0x06, 0xAB]) 0 0 2) = [0, 0, 0]"
proof -
  have r: "reads (hid_parse_item (mem_of [0x06, 0xAB]) 0 0 2) = [0, 0, 0]"
    by (simp add: hid_parse_item_def mem_of_def table_def)
  show ?thesis
    using hid_parse_item_bounds [of 2 0 "mem_of [0x06, 0xAB]" 0] r
    by (simp add: mem_of_def table_def)
qed

section \<open>Properties of the list of devices\<close>

subsection \<open>Closing\<close>

lemma get_hid_less: "get_hid hs num = Some i \<Longrightarrow> i < length hs"
  by (induction hs num arbitrary: i rule: get_hid.induct) (auto split: if_splits)

lemma get_hid_update: "get_hid (hs[i := x]) num = get_hid hs num"
proof (induction hs num arbitrary: i rule: get_hid.induct)
  case (1 num)
  then show ?case by simp
next
  case (2 h hs num)
  then show ?case by (cases i) auto
qed

lemma hid_close_idem: "hid_close (fst (hid_close hid)) = (fst (hid_close hid), [])"
  by (simp add: hid_close_def split: option.splits)

lemma hid_close_open: "open (fst (hid_close hid)) = open hid"
  by (simp add: hid_close_def split: option.splits)

lemma hid_close_calls:
  "snd (hid_close hid) = [] \<or> (\<exists>h. snd (hid_close hid) = [ReleaseInterface h (iface hid), LibusbClose h])"
  by (simp add: hid_close_def split: option.splits)

text \<open>
  Claim C9. For every index and every state, a second \<^verbatim>\<open>rawhid_close\<close> of the same
  index changes nothing and makes no call to libusb, and the first one makes either no
  call or one \<^verbatim>\<open>libusb_release_interface\<close> followed by one \<^verbatim>\<open>libusb_close\<close>: over
  the two calls the interface is released and the connection closed at most once.
\<close>

theorem rawhid_close_twice:
  "rawhid_close num (rawhid_close num w) = rawhid_close num w
   \<and> (usb_log (rawhid_close num w) = usb_log w
      \<or> (\<exists>h j. usb_log (rawhid_close num w) = usb_log w @ [ReleaseInterface h j, LibusbClose h]))"
proof (cases "get_hid (hids w) num")
  case None
  then show ?thesis by (simp add: rawhid_close_def)
next
  case (Some i)
  then have i: "i < length (hids w)" by (rule get_hid_less)
  show ?thesis
  proof (cases "open (hids w ! i) = 0")
    case True
    with Some show ?thesis by (simp add: rawhid_close_def)
  next
    case False
    let ?w1 = "w\<lparr>hids := (hids w)[i := fst (hid_close (hids w ! i))],
                   usb_log := usb_log w @ snd (hid_close (hids w ! i))\<rparr>"
    have w1: "rawhid_close num w = ?w1"
      using Some False by (simp add: rawhid_close_def)
    have g: "get_hid (hids ?w1) num = Some i"
      using Some by (simp add: get_hid_update)
    have n: "hids ?w1 ! i = fst (hid_close (hids w ! i))"
      using i by simp
    have "rawhid_close num ?w1 = ?w1"
      using g n False i by (simp add: rawhid_close_def hid_close_idem hid_close_open)
    moreover have "usb_log ?w1 = usb_log w
      \<or> (\<exists>h j. usb_log ?w1 = usb_log w @ [ReleaseInterface h j, LibusbClose h])"
      using hid_close_calls [of "hids w ! i"] by auto
    ultimately show ?thesis by (simp only: w1)
  qed
qed

subsection \<open>Receiving\<close>

lemma get_hid_beyond: "int (length hs) \<le> num \<Longrightarrow> get_hid hs num = None"
  by (induction hs num rule: get_hid.induct) auto

lemma rawhid_recv_absent:
  "int (length (hids w)) \<le> num \<Longrightarrow> rawhid_recv xfer num len timeout w = (-1, w)"
  by (simp add: rawhid_recv_def get_hid_beyond)

lemma rawhid_recv_transfer:
  assumes "get_hid (hids w) num = Some i" and "open (hids w ! i) \<noteq> 0"
    and "xfer (handle (hids w ! i)) (ep_in (hids w ! i) OR LIBUSB_ENDPOINT_IN) len timeout = (r, n)"
  shows "fst (rawhid_recv xfer num len timeout w)
       = (if r = 0 then n else if r = LIBUSB_ERROR_TIMEOUT then 0 else -1)"
  using assms by (simp add: rawhid_recv_def Let_def)

text \<open>
  Claim C4 fails on the code for a node that has been closed: \<^verbatim>\<open>hid_close\<close> resets
  \<^verbatim>\<open>handle\<close> and leaves \<^verbatim>\<open>open\<close> at \<open>1\<close>, so \<^verbatim>\<open>rawhid_recv\<close> does not return
  \<open>-1\<close> at the lookup: it calls \<^verbatim>\<open>libusb_interrupt_transfer\<close> with the \<^verbatim>\<open>NULL\<close>
  handle and returns what that call yields, here \<open>64\<close>.
\<close>

theorem rawhid_recv_after_close:
  "rawhid_recv (\<lambda>h ep len timeout. (0, 64)) 0 64 100 (rawhid_close 0 one_open)
   = (64, \<lparr>hids = [\<lparr>handle = None, open = 1, iface = 0, ep_in = 3, ep_out = 4\<rparr>],
           usb_log = [LibusbOpen 0, KernelDriverActive 0 0, ClaimInterface 0 0 True,
                      GetReportDescriptor 0 0 11, ReleaseInterface 0 0, LibusbClose 0,
                      InterruptTransfer None 131 64 100],
           next_handle = 1\<rparr>)"
  by (simp add: rawhid_recv_def rawhid_close_def one_open_def hid_close_def
                LIBUSB_ENDPOINT_IN_def)

section \<open>Properties of \<^verbatim>\<open>rawhid_open\<close>\<close>

subsection \<open>Tearing down the old list\<close>

lemma close_calls_eq: "(\<lambda>p. snd (hid_close p)) = close_calls"
  by (rule ext) (simp add: close_calls_def)

text \<open>
  Claim C10. With \<^verbatim>\<open>max < 1\<close>, \<^verbatim>\<open>rawhid_open\<close> returns \<open>0\<close>, leaves the list of
  devices empty, and the only calls it makes to libusb are those that close the nodes
  that were in the list: no device is opened, and the handle counter is unchanged.
\<close>

theorem rawhid_open_max_lt_1:
  assumes "max' < 1"
  shows "rawhid_open max' vid pid usage_page usage devs w
       = (0, w\<lparr>hids := [], usb_log := usb_log w @ concat (map close_calls (hids w))\<rparr>)"
  using assms
  by (cases "hids w = []") (simp_all add: rawhid_open_def free_all_hid_def close_calls_eq)

theorem rawhid_open_max_lt_1_witness:
  "(0::int) < 1
   \<and> rawhid_open 0 (-1) (-1) (-1) (-1) one_teensy one_open
     = (0, \<lparr>hids = [],
            usb_log = [LibusbOpen 0, KernelDriverActive 0 0, ClaimInterface 0 0 True,
                       GetReportDescriptor 0 0 11, ReleaseInterface 0 0, LibusbClose 0],
            next_handle = 1\<rparr>)"
  using rawhid_open_max_lt_1 [of 0 "-1" "-1" "-1" "-1" one_teensy one_open]
  by (simp add: one_open_def close_calls_def hid_close_def)

subsection \<open>One candidate\<close>

lemma held_append: "held cs (a @ b) = held (held cs a) b"
  by (induction cs a rule: held.induct) auto

lemma opened_append: "opened hs (a @ b) = opened (opened hs a) b"
  by (induction hs a rule: opened.induct) auto


lemma logged_logged: "logged a (logged b w) = logged (b @ a) w"
  by (simp add: logged_def)

lemma logged_fields [simp]:
  "usb_log (logged cs w) = usb_log w @ cs"
  "hids (logged cs w) = hids w"
  "next_handle (logged cs w) = next_handle w"
  by (simp_all add: logged_def)

lemma add_hid_fields [simp]:
  "usb_log (add_hid e w) = usb_log w"
  "hids (add_hid e w) = hids w @ [e]"
  "next_handle (add_hid e w) = next_handle w"
  by (simp_all add: add_hid_def)

lemma pass_inv_handles:
  assumes "map (\<lambda>e. (handle e, iface e)) hs = map (\<lambda>(h, j). (Some h, j)) cl"
    and "map handle hs = map Some ol"
  shows "map fst cl = ol"
proof -
  have "map handle hs = map fst (map (\<lambda>e. (handle e, iface e)) hs)"
    by (simp add: comp_def)
  also have "\<dots> = map fst (map (\<lambda>(h, j). (Some h, j)) cl)"
    by (simp only: assms(1))
  also have "\<dots> = map Some (map fst cl)"
    by (simp add: comp_def case_prod_beta)
  finally have "map Some ol = map Some (map fst cl)"
    using assms(2) by simp
  then show ?thesis
    by (metis inj_Some inj_map_eq_map)
qed

lemma pass_inv_open_failed:
  assumes "pass_inv L n0 (w, l)"
  shows "pass_inv L n0 (logged [LibusbOpenFailed] w, l)"
proof -
  from assms obtain evs where
    log: "usb_log w = L @ evs" and rest: "n0 \<le> next_handle w"
      "\<forall>c \<in> set evs. \<forall>h. call_handle c = Some h \<longrightarrow> n0 \<le> h \<and> h < next_handle w"
      "map (\<lambda>e. (handle e, iface e)) (hids w) = map (\<lambda>(h, j). (Some h, j)) (held [] evs)"
      "map handle (hids w) = map Some (opened [] evs)"
      "\<forall>h \<in> set (opened [] evs). n0 \<le> h \<and> h < next_handle w"
      "distinct (opened [] evs)"
      "\<forall>e \<in> set (hids w). open e = 1 \<and> ep_in e \<noteq> 0"
      "count l = int (length (hids w))"
    by (auto simp: pass_inv_def)
  show ?thesis
    unfolding pass_inv_def
    by (rule exI [of _ "evs @ [LibusbOpenFailed]"])
       (use log rest in \<open>simp add: held_append opened_append\<close>)
qed

lemma pass_inv_reject:
  assumes "pass_inv L n0 (w, l)" and "count l' = count l"
    and "\<forall>c \<in> set cs. call_handle c = Some (next_handle w)"
    and "\<And>xs. (next_handle w, j) \<notin> set xs \<Longrightarrow> held xs cs = xs"
    and "\<And>hs. next_handle w \<notin> set hs \<Longrightarrow> opened hs cs = hs"
  shows "pass_inv L n0 (logged cs (w\<lparr>next_handle := Suc (next_handle w)\<rparr>), l')"
proof -
  from assms(1) obtain evs where
    log: "usb_log w = L @ evs" and n0: "n0 \<le> next_handle w"
    and calls: "\<forall>c \<in> set evs. \<forall>h. call_handle c = Some h \<longrightarrow> n0 \<le> h \<and> h < next_handle w"
    and hd: "map (\<lambda>e. (handle e, iface e)) (hids w) = map (\<lambda>(h, j). (Some h, j)) (held [] evs)"
    and op: "map handle (hids w) = map Some (opened [] evs)"
    and ob: "\<forall>h \<in> set (opened [] evs). n0 \<le> h \<and> h < next_handle w"
    and di: "distinct (opened [] evs)"
    and en: "\<forall>e \<in> set (hids w). open e = 1 \<and> ep_in e \<noteq> 0"
    and cn: "count l = int (length (hids w))"
    by (auto simp: pass_inv_def)
  have fresh: "next_handle w \<notin> set (opened [] evs)" using ob by auto
  have hf: "map fst (held [] evs) = opened [] evs"
    using hd op by (rule pass_inv_handles)
  have fresh2: "(next_handle w, j) \<notin> set (held [] evs)"
    using fresh hf by (metis fst_conv image_eqI set_map)
  have h: "held [] (evs @ cs) = held [] evs"
    using assms(4) [OF fresh2] by (simp add: held_append)
  have o: "opened [] (evs @ cs) = opened [] evs"
    using assms(5) [OF fresh] by (simp add: opened_append)
  have c: "\<forall>c \<in> set (evs @ cs). \<forall>h. call_handle c = Some h \<longrightarrow> n0 \<le> h \<and> h < Suc (next_handle w)"
    using calls assms(3) n0 by (auto simp: less_Suc_eq)
  show ?thesis
    unfolding pass_inv_def
    apply (rule exI [of _ "evs @ cs"])
    apply (simp only: h o fst_conv snd_conv)
    using log n0 hd op ob di en cn c assms(2) by (auto simp: less_Suc_eq)
qed

lemma pass_inv_commit:
  assumes "pass_inv L n0 (w, l)" and "count l' = count l + 1" and "i \<noteq> 0"
    and "\<forall>c \<in> set cs. call_handle c = Some (next_handle w)"
    and "\<And>xs. held xs cs = xs @ [(next_handle w, j)]"
    and "\<And>hs. opened hs cs = hs @ [next_handle w]"
  shows "pass_inv L n0
           (add_hid \<lparr>handle = Some (next_handle w), open = 1, iface = j, ep_in = i, ep_out = out\<rparr>
              (logged cs (w\<lparr>next_handle := Suc (next_handle w)\<rparr>)),
            l')"
proof -
  from assms(1) obtain evs where
    log: "usb_log w = L @ evs" and n0: "n0 \<le> next_handle w"
    and calls: "\<forall>c \<in> set evs. \<forall>h. call_handle c = Some h \<longrightarrow> n0 \<le> h \<and> h < next_handle w"
    and hd: "map (\<lambda>e. (handle e, iface e)) (hids w) = map (\<lambda>(h, j). (Some h, j)) (held [] evs)"
    and op: "map handle (hids w) = map Some (opened [] evs)"
    and ob: "\<forall>h \<in> set (opened [] evs). n0 \<le> h \<and> h < next_handle w"
    and di: "distinct (opened [] evs)"
    and en: "\<forall>e \<in> set (hids w). open e = 1 \<and> ep_in e \<noteq> 0"
    and cn: "count l = int (length (hids w))"
    by (auto simp: pass_inv_def)
  have fresh: "next_handle w \<notin> set (opened [] evs)" using ob by auto
  have h: "held [] (evs @ cs) = held [] evs @ [(next_handle w, j)]"
    using assms(5) by (simp add: held_append)
  have o: "opened [] (evs @ cs) = opened [] evs @ [next_handle w]"
    using assms(6) by (simp add: opened_append)
  have c: "\<forall>c \<in> set (evs @ cs). \<forall>h. call_handle c = Some h \<longrightarrow> n0 \<le> h \<and> h < Suc (next_handle w)"
    using calls assms(4) n0 by (auto simp: less_Suc_eq)
  show ?thesis
    unfolding pass_inv_def
    apply (rule exI [of _ "evs @ cs"])
    apply (simp only: h o fst_conv snd_conv)
    using log n0 hd op ob di en cn c assms(2,3) fresh by (auto simp: less_Suc_eq)
qed

lemma interface_busy_logged [simp]:
  "interface_busy first j (w\<lparr>next_handle := n\<rparr>) = interface_busy first j w"
  "interface_busy first j (logged [LibusbOpen h, KernelDriverActive h j'] w)
     = interface_busy first j w"
  "interface_busy first j
     (logged [LibusbOpen h, KernelDriverActive h j', DetachKernelDriver h j' True] w)
     = interface_busy first j w"
  by (simp_all add: interface_busy_def held_append)

lemma candidate_cases:
  assumes io: "scan_endpoints (endpoint d) (0, 0) = (i, out)"
    and pr: "parse_report (report_buf (replies d)) (nat (report_len (replies d))) 0 0
               (parsed_usage_page l, parsed_usage l) = (page, us)"
  obtains
    (skip) "bInterfaceClass d \<noteq> LIBUSB_CLASS_HID \<or> bInterfaceSubClass d \<noteq> 0
            \<or> bInterfaceProtocol d \<noteq> 0 \<or> i = 0"
      and "candidate usage_page usage first j d (w, l) = (w, l)"
  | (open_failed) "\<not> open_ok (replies d)"
      and "candidate usage_page usage first j d (w, l) = (logged [LibusbOpenFailed] w, l)"
  | (reject) cs l' where
      "driver_active (replies d) \<and> \<not> detach_ok (replies d) \<or> \<not> claim_ok (replies d)
       \<or> interface_busy first j w
       \<or> report_len (replies d) < 0 \<or> page = 0 \<or> us = 0
       \<or> (usage_page > 0 \<and> uint page \<noteq> usage_page) \<or> (usage > 0 \<and> uint us \<noteq> usage)
       \<or> \<not> malloc_ok (replies d)"
      and "candidate usage_page usage first j d (w, l)
           = (logged cs (w\<lparr>next_handle := Suc (next_handle w)\<rparr>), l')"
      and "count l' = count l"
      and "\<forall>c \<in> set cs. call_handle c = Some (next_handle w)"
      and "\<And>xs. (next_handle w, j) \<notin> set xs \<Longrightarrow> held xs cs = xs"
      and "\<And>hs. next_handle w \<notin> set hs \<Longrightarrow> opened hs cs = hs"
  | (commit) cs l' where
      "bInterfaceClass d = LIBUSB_CLASS_HID" and "bInterfaceSubClass d = 0"
      and "bInterfaceProtocol d = 0" and "i \<noteq> 0" and "open_ok (replies d)"
      and "\<not> (driver_active (replies d) \<and> \<not> detach_ok (replies d))"
      and "claim_ok (replies d)" and "\<not> interface_busy first j w"
      and "\<not> report_len (replies d) < 0"
      and "page \<noteq> 0" and "us \<noteq> 0"
      and "\<not> (usage_page > 0 \<and> uint page \<noteq> usage_page)"
      and "\<not> (usage > 0 \<and> uint us \<noteq> usage)" and "malloc_ok (replies d)"
      and "candidate usage_page usage first j d (w, l)
           = (add_hid \<lparr>handle = Some (next_handle w), open = 1, iface = j,
                       ep_in = i, ep_out = out\<rparr>
                (logged cs (w\<lparr>next_handle := Suc (next_handle w)\<rparr>)), l')"
      and "count l' = count l + 1"
      and "\<forall>c \<in> set cs. call_handle c = Some (next_handle w)"
      and "\<And>xs. held xs cs = xs @ [(next_handle w, j)]"
      and "\<And>hs. opened hs cs = hs @ [next_handle w]"
proof -
  let ?a = "replies d"
  let ?h = "next_handle w"
  let ?w = "w\<lparr>next_handle := Suc ?h\<rparr>"
  define pre where "pre = [LibusbOpen ?h, KernelDriverActive ?h j]
      @ (if driver_active ?a then [DetachKernelDriver ?h j True] else [])"
  have p1: "\<forall>c \<in> set pre. call_handle c = Some ?h"
    by (simp add: pre_def)
  have p2: "held xs (pre @ ys) = held xs ys" for xs ys
    by (simp add: pre_def)
  have p3: "opened hs (pre @ ys) = opened (hs @ [?h]) ys" for hs ys
    by (simp add: pre_def)
  let ?l = "l\<lparr>parsed_usage_page := page, parsed_usage := us\<rparr>"
  let ?bad = "page = 0 \<or> us = 0 \<or> (usage_page > 0 \<and> uint page \<noteq> usage_page)
      \<or> (usage > 0 \<and> uint us \<noteq> usage)"
  note defs = candidate_def Let_def logged_logged io pr pre_def interface_busy_logged
  show ?thesis
  proof (cases "bInterfaceClass d = LIBUSB_CLASS_HID \<and> bInterfaceSubClass d = 0
                \<and> bInterfaceProtocol d = 0 \<and> i \<noteq> 0")
    case False
    then have "candidate usage_page usage first j d (w, l) = (w, l)"
      by (auto simp: defs)
    with False show ?thesis by (intro skip) auto
  next
    case filt: True
    show ?thesis
    proof (cases "open_ok ?a")
      case False
      with filt have "candidate usage_page usage first j d (w, l) = (logged [LibusbOpenFailed] w, l)"
        by (simp add: defs)
      with False show ?thesis by (intro open_failed)
    next
      case op: True
      show ?thesis
      proof (cases "driver_active ?a \<and> \<not> detach_ok ?a")
        case True
        with filt op have "candidate usage_page usage first j d (w, l)
            = (logged [LibusbOpen ?h, KernelDriverActive ?h j,
                       DetachKernelDriver ?h j False, LibusbClose ?h] ?w, l)"
          by (simp add: defs)
        with True show ?thesis
          by (intro reject [where cs = "[LibusbOpen ?h, KernelDriverActive ?h j,
                       DetachKernelDriver ?h j False, LibusbClose ?h]" and l' = l])
             auto
      next
        case det: False
        show ?thesis
        proof (cases "claim_ok ?a \<and> \<not> interface_busy first j w")
          case False
          with filt op det have "candidate usage_page usage first j d (w, l)
              = (logged (pre @ [ClaimInterface ?h j False, LibusbClose ?h]) ?w, l)"
            by (cases "driver_active ?a") (simp_all add: defs)
          with False show ?thesis
            by (intro reject [where cs = "pre @ [ClaimInterface ?h j False, LibusbClose ?h]"
                                and l' = l])
               (auto simp: p1 p2 p3)
        next
          case cl: True
          define got where "got = pre @ [ClaimInterface ?h j True,
                              GetReportDescriptor ?h j (report_len ?a)]"
          have g1: "\<forall>c \<in> set got. call_handle c = Some ?h"
            by (simp add: got_def p1)
          have g2: "held xs (got @ ys) = held (xs @ [(?h, j)]) ys" for xs ys
            by (simp add: got_def p2)
          have g3: "opened hs (got @ ys) = opened (hs @ [?h]) ys" for hs ys
            by (simp add: got_def p3)
          show ?thesis
          proof (cases "report_len ?a < 0")
            case True
            with filt op det cl have "candidate usage_page usage first j d (w, l)
                = (logged (got @ [ReleaseInterface ?h j, LibusbClose ?h]) ?w, l)"
              by (cases "driver_active ?a") (simp_all add: defs got_def)
            with True show ?thesis
              by (intro reject [where cs = "got @ [ReleaseInterface ?h j, LibusbClose ?h]"
                                  and l' = l])
                 (auto simp: g1 g2 g3)
          next
            case len: False
            show ?thesis
            proof (cases "?bad \<or> \<not> malloc_ok ?a")
              case True
              with filt op det cl len have "candidate usage_page usage first j d (w, l)
                  = (logged (got @ [ReleaseInterface ?h j, LibusbClose ?h]) ?w, ?l)"
                by (cases "driver_active ?a") (auto simp: defs got_def)
              moreover from True have "driver_active (replies d) \<and> \<not> detach_ok (replies d)
                  \<or> \<not> claim_ok (replies d) \<or> interface_busy first j w
                  \<or> report_len (replies d) < 0 \<or> page = 0 \<or> us = 0
                  \<or> (usage_page > 0 \<and> uint page \<noteq> usage_page)
                  \<or> (usage > 0 \<and> uint us \<noteq> usage) \<or> \<not> malloc_ok (replies d)"
                by blast
              ultimately show ?thesis
                by (intro reject [where cs = "got @ [ReleaseInterface ?h j, LibusbClose ?h]"
                                    and l' = ?l])
                   (auto simp: g1 g2 g3)
            next
              case False
              with filt op det cl len have "candidate usage_page usage first j d (w, l)
                  = (add_hid \<lparr>handle = Some ?h, open = 1, iface = j, ep_in = i, ep_out = out\<rparr>
                       (logged got ?w), ?l\<lparr>count := count ?l + 1\<rparr>)"
                by (cases "driver_active ?a") (auto simp: defs got_def)
              moreover have "held xs got = xs @ [(?h, j)]" for xs
                using g2 [of xs "[]"] by simp
              moreover have "opened hs got = hs @ [?h]" for hs
                using g3 [of hs "[]"] by simp
              ultimately show ?thesis
                using False filt op det cl len g1
                by (intro commit [where cs = got and l' = "?l\<lparr>count := count ?l + 1\<rparr>"]) auto
            qed
          qed
        qed
      qed
    qed
  qed
qed

lemma candidate_inv:
  assumes "pass_inv L n0 (w, l)"
  shows "pass_inv L n0 (candidate usage_page usage first j d (w, l))"
proof -
  obtain i out where io: "scan_endpoints (endpoint d) (0, 0) = (i, out)"
    by (cases "scan_endpoints (endpoint d) (0, 0)")
  obtain page us where pr: "parse_report (report_buf (replies d)) (nat (report_len (replies d))) 0 0
      (parsed_usage_page l, parsed_usage l) = (page, us)"
    by (cases "parse_report (report_buf (replies d)) (nat (report_len (replies d))) 0 0
      (parsed_usage_page l, parsed_usage l)")
  from io pr show ?thesis
  proof (cases rule: candidate_cases [where usage_page = usage_page and usage = usage
                                       and first = first and j = j and w = w])
    case skip
    with assms show ?thesis by simp
  next
    case open_failed
    with assms show ?thesis by (simp add: pass_inv_open_failed)
  next
    case (reject cs l')
    then show ?thesis
      using pass_inv_reject [OF assms, of l' cs j] by simp
  next
    case (commit cs l')
    then show ?thesis
      using pass_inv_commit [OF assms, of l' i cs j out] by simp
  qed
qed


subsection \<open>The whole pass\<close>

lemma altsetting_loop_inv:
  "pass_inv L n0 wl \<Longrightarrow> pass_inv L n0 (altsetting_loop usage_page usage first j ds wl)"
proof (induction ds arbitrary: wl)
  case Nil
  then show ?case by simp
next
  case (Cons d ds)
  obtain w l where wl: "wl = (w, l)" by (cases wl)
  with Cons.prems have "pass_inv L n0 (candidate usage_page usage first j d wl)"
    by (simp add: candidate_inv)
  then show ?case by (simp add: Cons.IH)
qed

lemma interface_loop_inv:
  "pass_inv L n0 wl \<Longrightarrow> pass_inv L n0 (interface_loop max' usage_page usage first j ifs wl)"
  by (induction ifs arbitrary: wl j) (simp_all add: altsetting_loop_inv)

lemma device_body_inv:
  "pass_inv L n0 wl \<Longrightarrow> pass_inv L n0 (device_body max' vid pid usage_page usage dev wl)"
  by (simp add: device_body_def interface_loop_inv split: option.splits)

lemma device_loop_inv:
  "pass_inv L n0 wl \<Longrightarrow> pass_inv L n0 (device_loop max' vid pid usage_page usage devs wl)"
  by (induction devs arbitrary: wl) (simp_all add: device_body_inv)

lemma free_all_hid_always:
  "(if hids w \<noteq> [] then free_all_hid w else w) = free_all_hid w"
  by (simp add: free_all_hid_def)

lemma free_all_hid_fields:
  "hids (free_all_hid w) = []"
  "usb_log (free_all_hid w) = usb_log w @ concat (map close_calls (hids w))"
  "next_handle (free_all_hid w) = next_handle w"
  by (simp_all add: free_all_hid_def close_calls_eq)

lemma pass_inv_start:
  "pass_inv (usb_log w) (next_handle w)
     (w\<lparr>hids := []\<rparr>, \<lparr>count = 0, parsed_usage_page = 0, parsed_usage = 0\<rparr>)"
  unfolding pass_inv_def by (rule exI [of _ "[]"]) simp

lemma rawhid_open_pass:
  "\<exists>l. pass_inv (usb_log (free_all_hid w)) (next_handle w)
         (snd (rawhid_open max' vid pid usage_page usage devs w), l)
       \<and> count l = fst (rawhid_open max' vid pid usage_page usage devs w)"
proof -
  let ?w0 = "free_all_hid w"
  let ?l0 = "\<lparr>count = 0, parsed_usage_page = 0, parsed_usage = 0\<rparr>"
  have "?w0\<lparr>hids := []\<rparr> = ?w0" by (simp add: free_all_hid_def)
  with pass_inv_start [of ?w0]
  have start: "pass_inv (usb_log ?w0) (next_handle w) (?w0, ?l0)"
    by (simp add: free_all_hid_fields)
  show ?thesis
  proof (cases "max' < 1 \<or> devs = None")
    case True
    then have "rawhid_open max' vid pid usage_page usage devs w = (0, ?w0)"
      by (auto simp: rawhid_open_def Let_def free_all_hid_always)
    with start show ?thesis by (intro exI [of _ ?l0]) simp
  next
    case False
    then obtain ds where ds: "devs = Some ds" and m: "\<not> max' < 1" by auto
    obtain w' l where r: "device_loop max' vid pid usage_page usage ds (?w0, ?l0) = (w', l)"
      by (cases "device_loop max' vid pid usage_page usage ds (?w0, ?l0)")
    have "pass_inv (usb_log ?w0) (next_handle w) (w', l)"
      using device_loop_inv [OF start, of max' vid pid usage_page usage ds] r by simp
    moreover have "rawhid_open max' vid pid usage_page usage devs w = (count l, w')"
      using ds m r by (simp add: rawhid_open_def Let_def free_all_hid_always)
    ultimately show ?thesis by (intro exI [of _ l]) simp
  qed
qed



subsection \<open>Two calls in a row\<close>

lemma pass_inv_entries:
  assumes "pass_inv L n0 (w, l)" and "e \<in> set (hids w)"
  shows "\<exists>h. handle e = Some h \<and> n0 \<le> h \<and> h < next_handle w"
proof -
  from assms(1) obtain evs where
    op: "map handle (hids w) = map Some (opened [] evs)"
    and ob: "\<forall>h \<in> set (opened [] evs). n0 \<le> h \<and> h < next_handle w"
    by (auto simp: pass_inv_def)
  from assms(2) have "handle e \<in> set (map handle (hids w))" by simp
  then have "handle e \<in> Some ` set (opened [] evs)" by (simp add: op)
  with ob show ?thesis by auto
qed

text \<open>
  Claim C7. Let \<open>w1\<close> be the state after one call of \<^verbatim>\<open>rawhid_open\<close> and \<open>w2\<close> the
  state after the next. The calls the second call makes to libusb begin with the
  release and the close of every node of \<open>w1\<close>, in list order; every node of \<open>w1\<close> has
  a handle, handed out before the second call; all later calls of the second call are
  on handles handed out during it; and the list of \<open>w2\<close> consists of the interfaces
  those later calls claimed and kept, so it holds nodes of the second pass only.
\<close>

theorem rawhid_open_twice:
  assumes "w1 = snd (rawhid_open max1 vid1 pid1 page1 usage1 devs1 w)"
    and "w2 = snd (rawhid_open max2 vid2 pid2 page2 usage2 devs2 w1)"
  shows "\<exists>evs. usb_log w2 = usb_log w1 @ concat (map close_calls (hids w1)) @ evs
      \<and> (\<forall>e \<in> set (hids w1). \<exists>h. handle e = Some h \<and> h < next_handle w1
             \<and> close_calls e = [ReleaseInterface h (iface e), LibusbClose h])
      \<and> (\<forall>c \<in> set evs. \<forall>h. call_handle c = Some h \<longrightarrow> next_handle w1 \<le> h)
      \<and> map (\<lambda>e. (handle e, iface e)) (hids w2) = map (\<lambda>(h, j). (Some h, j)) (held [] evs)
      \<and> (\<forall>e \<in> set (hids w2). \<exists>h. handle e = Some h \<and> next_handle w1 \<le> h)"
proof -
  from rawhid_open_pass [of w max1 vid1 pid1 page1 usage1 devs1]
  obtain l1 where i1: "pass_inv (usb_log (free_all_hid w)) (next_handle w) (w1, l1)"
    using assms(1) by auto
  from rawhid_open_pass [of w1 max2 vid2 pid2 page2 usage2 devs2]
  obtain l2 where i2: "pass_inv (usb_log (free_all_hid w1)) (next_handle w1) (w2, l2)"
    using assms(2) by auto
  from i2 obtain evs where
    log: "usb_log w2 = usb_log (free_all_hid w1) @ evs"
    and calls: "\<forall>c \<in> set evs. \<forall>h. call_handle c = Some h \<longrightarrow> next_handle w1 \<le> h"
    and hd: "map (\<lambda>e. (handle e, iface e)) (hids w2) = map (\<lambda>(h, j). (Some h, j)) (held [] evs)"
    by (auto simp: pass_inv_def)
  have old: "\<forall>e \<in> set (hids w1). \<exists>h. handle e = Some h \<and> h < next_handle w1
             \<and> close_calls e = [ReleaseInterface h (iface e), LibusbClose h]"
  proof
    fix e assume "e \<in> set (hids w1)"
    with i1 obtain h where "handle e = Some h" and "h < next_handle w1"
      using pass_inv_entries by blast
    then show "\<exists>h. handle e = Some h \<and> h < next_handle w1
             \<and> close_calls e = [ReleaseInterface h (iface e), LibusbClose h]"
      by (simp add: close_calls_def hid_close_def)
  qed
  have new: "\<forall>e \<in> set (hids w2). \<exists>h. handle e = Some h \<and> next_handle w1 \<le> h"
    using pass_inv_entries [OF i2] by blast
  show ?thesis
    using log calls hd old new
    by (intro exI [of _ evs]) (simp add: free_all_hid_fields)
qed

theorem rawhid_open_twice_witness:
  "usb_log (snd (rawhid_open 1 (-1) (-1) (-1) (-1) one_teensy
                  (snd (rawhid_open 1 (-1) (-1) (-1) (-1) one_teensy boot))))
     = usb_log (snd (rawhid_open 1 (-1) (-1) (-1) (-1) one_teensy boot))
       @ [ReleaseInterface 0 0, LibusbClose 0]
       @ [LibusbOpen 1, KernelDriverActive 1 0, ClaimInterface 1 0 True,
          GetReportDescriptor 1 0 11]
   \<and> map handle (hids (snd (rawhid_open 1 (-1) (-1) (-1) (-1) one_teensy boot))) = [Some 0]
   \<and> map handle (hids (snd (rawhid_open 1 (-1) (-1) (-1) (-1) one_teensy
                  (snd (rawhid_open 1 (-1) (-1) (-1) (-1) one_teensy boot))))) = [Some 1]"
proof -
  have first: "snd (rawhid_open 1 (-1) (-1) (-1) (-1) one_teensy boot) = one_open"
    by code_simp
  have second: "snd (rawhid_open 1 (-1) (-1) (-1) (-1) one_teensy one_open)
      = \<lparr>hids = [\<lparr>handle = Some 1, open = 1, iface = 0, ep_in = 3, ep_out = 4\<rparr>],
         usb_log = [LibusbOpen 0, KernelDriverActive 0 0, ClaimInterface 0 0 True,
                    GetReportDescriptor 0 0 11, ReleaseInterface 0 0, LibusbClose 0,
                    LibusbOpen 1, KernelDriverActive 1 0, ClaimInterface 1 0 True,
                    GetReportDescriptor 1 0 11],
         next_handle = 2\<rparr>"
    by code_simp
  show ?thesis
    using rawhid_open_twice [OF refl refl, of 1 "-1" "-1" "-1" "-1" one_teensy
                               1 "-1" "-1" "-1" "-1" one_teensy boot]
    by (simp only: first second) (simp add: one_open_def)
qed

subsection \<open>Usage values left from an earlier candidate\<close>

text \<open>
  Within one descriptor a later usage page replaces an earlier one as long as no
  usage has been seen.
\<close>

lemma parse_report_last_page:
  "parse_report (mem_of [0x05, 0x01, 0x05, 0x0C, 0x09, 0x01, 0xC0]) 7 0 0 (0, 0) = (0x0C, 1)"
  by code_simp

text \<open>
  Claim C2 fails on the code: \<^verbatim>\<open>parsed_usage_page\<close> and \<^verbatim>\<open>parsed_usage\<close> are set to
  zero once, before the loops, and keep the values of the candidate before. The
  second device below has a report descriptor with a usage page and no usage, which
  on its own decodes to the usage \<open>0\<close>; after the first device it is registered.
\<close>

theorem rawhid_open_stale_usage:
  "parse_report (mem_of page_only_report) 8 0 0 (0, 0) = (0xFF00, 0)
   \<and> fst (rawhid_open 2 (-1) (-1) (-1) (-1)
            (Some [usb_device [\<lparr>altsetting = [rawhid_alt 11 teensy_report]\<rparr>],
                   usb_device [\<lparr>altsetting = [rawhid_alt 8 page_only_report]\<rparr>]]) boot) = 2
   \<and> hids (snd (rawhid_open 2 (-1) (-1) (-1) (-1)
            (Some [usb_device [\<lparr>altsetting = [rawhid_alt 11 teensy_report]\<rparr>],
                   usb_device [\<lparr>altsetting = [rawhid_alt 8 page_only_report]\<rparr>]]) boot))
     = [\<lparr>handle = Some 0, open = 1, iface = 0, ep_in = 3, ep_out = 4\<rparr>,
        \<lparr>handle = Some 1, open = 1, iface = 0, ep_in = 3, ep_out = 4\<rparr>]"
  by code_simp

subsection \<open>At most one node for an interface\<close>














subsection \<open>The bound on the number of devices\<close>



subsection \<open>The list after a pass\<close>



end
